theory Spec2Isabelle
  imports Main
begin

section \<open>The event-stream translator of \<open>src/ai/llm_caller.py\<close>\<close>

text \<open>
  \<open>call_llm\<close> is an asynchronous generator. It resolves a session identifier, asks the
  session service of the ADK runner to create the session, picks the last message of the
  thread, hands it to \<open>runner.run_async\<close> and translates every event of the resulting
  stream into dictionaries \<open>{"type": "status" | "content", "text": ...}\<close>.

  The runner, its session service and the event objects belong to the Google ADK library.
  They are not part of the repository, so the model takes their answers as inputs: what
  \<open>create_session\<close> raises, and which events \<open>run_async\<close> delivers. Logging has no effect
  on what is yielded and is left out.

  Python strings are modelled as \<open>string\<close>. The only operation below that looks inside a
  character is \<open>str.title\<close>; it is modelled for ASCII text (the tool names of the
  repository are Python identifiers), every other character is treated as uncased.
\<close>

subsection \<open>Python values\<close>

text \<open>Exceptions. \<open>except Exception\<close> catches every class derived from \<open>Exception\<close>;
  \<open>BaseExceptionOnly\<close> stands for the others (\<open>CancelledError\<close>, \<open>KeyboardInterrupt\<close>).\<close>

datatype py_exception =
    AlreadyExistsError
  | KeyError string
  | OtherException string
  | BaseExceptionOnly string

fun is_Exception :: "py_exception \<Rightarrow> bool" where
  "is_Exception (BaseExceptionOnly _) = False"
| "is_Exception _ = True"

text \<open>Truth value of an optional string: \<open>None\<close> and \<open>""\<close> are false.\<close>

fun truthy :: "string option \<Rightarrow> bool" where
  "truthy None = False"
| "truthy (Some s) = (s \<noteq> [])"

subsection \<open>\<open>tool_name.replace("_", " ").title()\<close>\<close>

definition ascii_lowercase :: string where
  "ascii_lowercase = ''abcdefghijklmnopqrstuvwxyz''"

definition ascii_uppercase :: string where
  "ascii_uppercase = ''ABCDEFGHIJKLMNOPQRSTUVWXYZ''"

definition is_cased :: "char \<Rightarrow> bool" where
  "is_cased c = (c \<in> set ascii_lowercase \<or> c \<in> set ascii_uppercase)"

definition upper_char :: "char \<Rightarrow> char" where
  "upper_char c = (case map_of (zip ascii_lowercase ascii_uppercase) c of
                     Some u \<Rightarrow> u | None \<Rightarrow> c)"

definition lower_char :: "char \<Rightarrow> char" where
  "lower_char c = (case map_of (zip ascii_uppercase ascii_lowercase) c of
                     Some l \<Rightarrow> l | None \<Rightarrow> c)"

text \<open>\<open>str.title\<close>: a character that follows a cased character is lowercased, any other
  character is uppercased; the flag is whether the previous character was cased.\<close>

fun title_from :: "bool \<Rightarrow> string \<Rightarrow> string" where
  "title_from previous_is_cased [] = []"
| "title_from previous_is_cased (c # cs) =
     (if previous_is_cased then lower_char c else upper_char c) # title_from (is_cased c) cs"

definition title :: "string \<Rightarrow> string" where
  "title s = title_from False s"

text \<open>\<open>str.replace\<close> with one-character strings.\<close>

definition replace_char :: "char \<Rightarrow> char \<Rightarrow> string \<Rightarrow> string" where
  "replace_char old new s = map (\<lambda>c. if c = old then new else c) s"

definition readable_name :: "string \<Rightarrow> string" where
  "readable_name tool_name = title (replace_char (CHR ''_'') (CHR '' '') tool_name)"

subsection \<open>Raw events of the engine\<close>

text \<open>A part of a content; \<open>part_text = None\<close> covers both a part without the attribute
  \<open>text\<close> and one whose text is \<open>None\<close>.\<close>

record part =
  part_text :: "string option"

text \<open>\<open>types.Content\<close>: a role and an optional list of parts.\<close>

record adk_content =
  role :: "string option"
  parts :: "part list option"

text \<open>A function call either has the attribute \<open>name\<close>, or is rendered by \<open>str\<close>.\<close>

datatype func_call = Named string | Unnamed string

fun tool_name_of :: "func_call \<Rightarrow> string" where
  "tool_name_of (Named n) = n"
| "tool_name_of (Unnamed printed) = printed"

record event_actions =
  transfer_to_agent :: "string option"

text \<open>An event of the stream. \<open>get_function_calls = None\<close> is an event without that
  method, \<open>actions = None\<close> one without actions (or with none set).\<close>

record raw_event =
  author :: "string option"
  content :: "adk_content option"
  get_function_calls :: "func_call list option"
  actions :: "event_actions option"

subsection \<open>What the generator yields\<close>

text \<open>\<open>Status t\<close> is the dictionary \<open>{"type": "status", "text": t}\<close>, \<open>Content t\<close> is
  \<open>{"type": "content", "text": t}\<close>.\<close>

datatype llm_event = Status string | Content string

fun is_Content :: "llm_event \<Rightarrow> bool" where
  "is_Content (Content _) = True"
| "is_Content (Status _) = False"

text \<open>Every \<open>yield\<close> of the loop body is recorded together with the place it comes from:
  the position of the raw event in the stream and the block of the loop body. The
  position and the block are bookkeeping of the model; the generator's consumer sees
  \<open>emitted\<close> only.\<close>

datatype rule = AgentSwitch | ToolCall | HandOff | ContentExtraction

record emission =
  at_event :: nat
  by_rule :: rule
  emitted :: llm_event

fun priority :: "rule \<Rightarrow> nat" where
  "priority AgentSwitch = 1"
| "priority ToolCall = 2"
| "priority HandOff = 3"
| "priority ContentExtraction = 4"

subsection \<open>The loop body\<close>

record translator_state =
  current_agent :: "string option"
  has_started_streaming_content :: bool

definition initial_state :: translator_state where
  "initial_state = \<lparr>current_agent = None, has_started_streaming_content = False\<rparr>"

text \<open>Lines 100-107: agent changes.\<close>

definition agent_switch ::
  "nat \<Rightarrow> translator_state \<Rightarrow> raw_event \<Rightarrow> translator_state \<times> emission list" where
  "agent_switch i st ev =
     (if truthy (author ev) \<and> author ev \<noteq> Some ''user'' \<and> author ev \<noteq> current_agent st
      then
        (let st' = st\<lparr>current_agent := author ev\<rparr> in
         if \<not> has_started_streaming_content st'
         then (st', [\<lparr>at_event = i, by_rule = AgentSwitch,
                      emitted = Status ((case current_agent st' of Some a \<Rightarrow> a | None \<Rightarrow> ''None'')
                                        @ '' is working...'')\<rparr>])
         else (st', []))
      else (st, []))"

text \<open>Lines 109-123: tool calls.\<close>

definition function_calls_of :: "raw_event \<Rightarrow> func_call list" where
  "function_calls_of ev = (case get_function_calls ev of Some calls \<Rightarrow> calls | None \<Rightarrow> [])"

definition tool_calls :: "nat \<Rightarrow> translator_state \<Rightarrow> raw_event \<Rightarrow> emission list" where
  "tool_calls i st ev =
     (if function_calls_of ev \<noteq> [] \<and> \<not> has_started_streaming_content st
      then map (\<lambda>func_call.
                  \<lparr>at_event = i, by_rule = ToolCall,
                   emitted = Status (''Using '' @ readable_name (tool_name_of func_call) @ ''...'')\<rparr>)
               (function_calls_of ev)
      else [])"

text \<open>Lines 125-135: agent transfers.\<close>

definition hand_off :: "nat \<Rightarrow> raw_event \<Rightarrow> emission list" where
  "hand_off i ev =
     (case actions ev of
        None \<Rightarrow> []
      | Some acts \<Rightarrow>
          (case transfer_to_agent acts of
             None \<Rightarrow> []
           | Some target_agent \<Rightarrow>
               if target_agent \<noteq> []
               then [\<lparr>at_event = i, by_rule = HandOff,
                      emitted = Status (''Consulting '' @ target_agent @ ''...'')\<rparr>]
               else []))"

text \<open>Lines 137-143: content of events that the user did not write.\<close>

fun stream_parts ::
  "nat \<Rightarrow> translator_state \<Rightarrow> part list \<Rightarrow> translator_state \<times> emission list" where
  "stream_parts i st [] = (st, [])"
| "stream_parts i st (p # ps) =
     (case part_text p of
        None \<Rightarrow> stream_parts i st ps
      | Some t \<Rightarrow>
          if t \<noteq> []
          then (let st' = st\<lparr>has_started_streaming_content := True\<rparr>;
                    (st'', rest) = stream_parts i st' ps
                in (st'', \<lparr>at_event = i, by_rule = ContentExtraction, emitted = Content t\<rparr> # rest))
          else stream_parts i st ps)"

definition parts_of :: "raw_event \<Rightarrow> part list" where
  "parts_of ev =
     (case content ev of
        None \<Rightarrow> []
      | Some c \<Rightarrow> (case parts c of None \<Rightarrow> [] | Some ps \<Rightarrow> ps))"

definition stream_content ::
  "nat \<Rightarrow> translator_state \<Rightarrow> raw_event \<Rightarrow> translator_state \<times> emission list" where
  "stream_content i st ev =
     (if parts_of ev \<noteq> [] \<and> author ev \<noteq> Some ''user''
      then stream_parts i st (parts_of ev)
      else (st, []))"

text \<open>One pass through the loop body, for the raw event at position \<open>i\<close>.\<close>

definition process_event ::
  "nat \<Rightarrow> translator_state \<Rightarrow> raw_event \<Rightarrow> translator_state \<times> emission list" where
  "process_event i st ev =
     (let (st1, switch) = agent_switch i st ev;
          tools = tool_calls i st1 ev;
          transfer = hand_off i ev;
          (st2, chunks) = stream_content i st1 ev
      in (st2, switch @ tools @ transfer @ chunks))"

fun run_events ::
  "nat \<Rightarrow> translator_state \<Rightarrow> raw_event list \<Rightarrow> translator_state \<times> emission list" where
  "run_events i st [] = (st, [])"
| "run_events i st (ev # evs) =
     (let (st', now) = process_event i st ev;
          (st'', later) = run_events (Suc i) st' evs
      in (st'', now @ later))"

subsection \<open>\<open>call_llm\<close>\<close>

text \<open>The runner: \<open>create_session\<close> answers with the exception it raises, if any;
  \<open>run_async\<close> answers with the events it delivers and the exception that ends the
  stream, if any.\<close>

record runner =
  create_session :: "string \<Rightarrow> string \<Rightarrow> string \<Rightarrow> py_exception option"
  run_async :: "string \<Rightarrow> string \<Rightarrow> adk_content \<Rightarrow> raw_event list \<times> py_exception option"

datatype engine_call =
    CreateSession string string string
  | RunAsync string string adk_content

text \<open>What one call of \<open>call_llm\<close> does: the calls it makes on the runner, what it
  yields, and the exception it ends with, if any.\<close>

record turn =
  calls :: "engine_call list"
  yielded :: "emission list"
  raised :: "py_exception option"

definition app_name :: string where
  "app_name = ''slack_ai_agent''"

definition resolve_session_id :: "string \<Rightarrow> string option \<Rightarrow> string" where
  "resolve_session_id user_id session_id =
     (case session_id of None \<Rightarrow> ''session_'' @ user_id | Some s \<Rightarrow> s)"

definition last_message_of :: "(string \<rightharpoonup> string) list \<Rightarrow> (string \<rightharpoonup> string)" where
  "last_message_of messages_in_thread =
     (if messages_in_thread \<noteq> [] then last messages_in_thread
      else [''role'' \<mapsto> ''user'', ''content'' \<mapsto> ''''])"

definition new_message_of :: "string \<Rightarrow> adk_content" where
  "new_message_of txt = \<lparr>role = Some ''user'', parts = Some [\<lparr>part_text = Some txt\<rparr>]\<rparr>"

definition call_llm ::
  "runner \<Rightarrow> (string \<rightharpoonup> string) list \<Rightarrow> string \<Rightarrow> string option \<Rightarrow> turn" where
  "call_llm rn messages_in_thread user_id session_id =
     (let sid = resolve_session_id user_id session_id;
          created = CreateSession app_name user_id sid;
          escaping = (case create_session rn app_name user_id sid of
                        None \<Rightarrow> None
                      | Some e \<Rightarrow> if is_Exception e then None else Some e)
      in case escaping of
           Some e \<Rightarrow> \<lparr>calls = [created], yielded = [], raised = Some e\<rparr>
         | None \<Rightarrow>
             (case last_message_of messages_in_thread ''content'' of
                None \<Rightarrow> \<lparr>calls = [created], yielded = [], raised = Some (KeyError ''content'')\<rparr>
              | Some txt \<Rightarrow>
                  (let new_message = new_message_of txt;
                       (events, failure) = run_async rn user_id sid new_message
                   in \<lparr>calls = [created, RunAsync user_id sid new_message],
                       yielded = snd (run_events 0 initial_state events),
                       raised = failure\<rparr>)))"

text \<open>The sequence of dictionaries the consumer of the generator receives.\<close>

definition outputs :: "turn \<Rightarrow> llm_event list" where
  "outputs t = map emitted (yielded t)"

subsection \<open>Vocabulary of the properties\<close>

text \<open>The statuses that lines 104 and 114 guard with \<open>has_started_streaming_content\<close>.\<close>

definition guarded :: "emission \<Rightarrow> bool" where
  "guarded e = (by_rule e = AgentSwitch \<or> by_rule e = ToolCall)"

text \<open>What one block of the loop body yielded.\<close>

definition from_rule :: "rule \<Rightarrow> emission list \<Rightarrow> llm_event list" where
  "from_rule r es = map emitted (filter (\<lambda>e. by_rule e = r) es)"

text \<open>The texts of the parts that have a non-empty text, in part order.\<close>

definition text_chunks :: "part list \<Rightarrow> string list" where
  "text_chunks ps = map the (filter truthy (map part_text ps))"

text \<open>The translator state when the first \<open>n\<close> events of a stream have been processed.\<close>

definition state_after :: "raw_event list \<Rightarrow> nat \<Rightarrow> translator_state" where
  "state_after evs n = fst (run_events 0 initial_state (take n evs))"

text \<open>Position first, block of the loop body second.\<close>

definition emission_order :: "emission \<Rightarrow> emission \<Rightarrow> bool" where
  "emission_order a b =
     (at_event a < at_event b
      \<or> (at_event a = at_event b \<and> priority (by_rule a) \<le> priority (by_rule b)))"


subsection \<open>Concrete streams\<close>

definition bare_event :: raw_event where
  "bare_event = \<lparr>author = None, content = None, get_function_calls = Some [], actions = None\<rparr>"

definition text_content :: "string \<Rightarrow> adk_content option" where
  "text_content s = Some \<lparr>role = Some ''model'', parts = Some [\<lparr>part_text = Some s\<rparr>]\<rparr>"

definition delivering :: "raw_event list \<Rightarrow> runner" where
  "delivering evs =
     \<lparr>create_session = (\<lambda>_ _ _. None), run_async = (\<lambda>_ _ _. (evs, None))\<rparr>"

definition scenario_A :: "raw_event list" where
  "scenario_A =
     [bare_event\<lparr>author := Some ''MathAgent''\<rparr>,
      bare_event\<lparr>author := Some ''MathAgent'', get_function_calls := Some [Named ''calculate'']\<rparr>,
      bare_event\<lparr>author := Some ''MathAgent'', content := text_content ''Result: 4''\<rparr>]"

definition scenario_B :: "raw_event list" where
  "scenario_B =
     [bare_event\<lparr>author := Some ''A'', content := text_content ''partial''\<rparr>,
      bare_event\<lparr>actions := Some \<lparr>transfer_to_agent = Some ''B''\<rparr>\<rparr>,
      bare_event\<lparr>author := Some ''B'', content := text_content '' more''\<rparr>]"

text \<open>A stream whose second event carries an author change, a tool call, a transfer and
  content, after content has started.\<close>

definition stream_W :: "raw_event list" where
  "stream_W =
     [bare_event\<lparr>author := Some ''A'', content := text_content ''partial''\<rparr>,
      bare_event\<lparr>author := Some ''B'', get_function_calls := Some [Named ''calculate''],
                 actions := Some \<lparr>transfer_to_agent = Some ''C''\<rparr>,
                 content := text_content '' more''\<rparr>]"

text \<open>A translator state in which content has started.\<close>

definition started_with :: "string option \<Rightarrow> translator_state" where
  "started_with a = \<lparr>current_agent = a, has_started_streaming_content = True\<rparr>"

text \<open>A runner whose session service raises \<open>e\<close> on creation.\<close>

definition failing_runner :: "py_exception \<Rightarrow> raw_event list \<Rightarrow> runner" where
  "failing_runner e evs =
     \<lparr>create_session = (\<lambda>_ _ _. Some e), run_async = (\<lambda>_ _ _. (evs, None))\<rparr>"


definition tool_event :: raw_event where
  "tool_event = bare_event\<lparr>author := Some ''user'',
     get_function_calls := Some [Named ''get_current_time'', Unnamed ''calculate'']\<rparr>"

definition user_tool_event :: raw_event where
  "user_tool_event = bare_event\<lparr>author := Some ''MathAgent'', get_function_calls := Some [Named ''count_words'']\<rparr>"

definition three_parts :: "part list" where
  "three_parts = [\<lparr>part_text = None\<rparr>, \<lparr>part_text = Some ''Result: ''\<rparr>,
                  \<lparr>part_text = Some ''''\<rparr>, \<lparr>part_text = Some ''4''\<rparr>]"

definition parts_event :: "string option \<Rightarrow> raw_event" where
  "parts_event a = bare_event\<lparr>author := a,
     content := Some \<lparr>role = Some ''model'', parts = Some three_parts\<rparr>\<rparr>"

text \<open>An event written by "user" that carries content only: no function calls, and an
  actions object that names no transfer target.\<close>

definition user_content_event :: raw_event where
  "user_content_event =
     (parts_event (Some ''user''))\<lparr>actions := Some \<lparr>transfer_to_agent = None\<rparr>\<rparr>"

definition tool_status_A :: emission where
  "tool_status_A = \<lparr>at_event = 1, by_rule = ToolCall, emitted = Status ''Using Calculate...''\<rparr>"

section \<open>Properties of the loop body\<close>

subsection \<open>The blocks and their state\<close>

lemma agent_switch_flag:
  "has_started_streaming_content (fst (agent_switch i st ev)) = has_started_streaming_content st"
  by (simp add: agent_switch_def Let_def)

lemma agent_switch_member:
  "e \<in> set (snd (agent_switch i st ev)) \<Longrightarrow>
     by_rule e = AgentSwitch \<and> at_event e = i \<and> \<not> is_Content (emitted e)
     \<and> \<not> has_started_streaming_content st"
  by (auto simp: agent_switch_def Let_def split: if_splits)

lemma tool_calls_member:
  "e \<in> set (tool_calls i st ev) \<Longrightarrow>
     by_rule e = ToolCall \<and> at_event e = i \<and> \<not> is_Content (emitted e)
     \<and> \<not> has_started_streaming_content st"
  by (auto simp: tool_calls_def split: if_splits)

lemma hand_off_member:
  "e \<in> set (hand_off i ev) \<Longrightarrow>
     by_rule e = HandOff \<and> at_event e = i \<and> \<not> is_Content (emitted e)"
  by (auto simp: hand_off_def split: option.splits if_splits)

lemma stream_parts_member:
  "e \<in> set (snd (stream_parts i st ps)) \<Longrightarrow>
     by_rule e = ContentExtraction \<and> at_event e = i \<and> is_Content (emitted e)"
  by (induction ps arbitrary: st) (auto simp: case_prod_beta Let_def split: option.splits if_splits)

lemma stream_parts_flag:
  "has_started_streaming_content (fst (stream_parts i st ps)) =
     (has_started_streaming_content st \<or> snd (stream_parts i st ps) \<noteq> [])"
  by (induction ps arbitrary: st) (auto simp: case_prod_beta Let_def split: option.splits if_splits)

lemma stream_parts_agent:
  "current_agent (fst (stream_parts i st ps)) = current_agent st"
  by (induction ps arbitrary: st) (auto simp: case_prod_beta Let_def split: option.splits if_splits)

lemma stream_parts_emitted:
  "map emitted (snd (stream_parts i st ps)) = map Content (text_chunks ps)"
  by (induction ps arbitrary: st) (auto simp: text_chunks_def case_prod_beta Let_def split: option.splits if_splits)

lemma stream_content_member:
  "e \<in> set (snd (stream_content i st ev)) \<Longrightarrow>
     by_rule e = ContentExtraction \<and> at_event e = i \<and> is_Content (emitted e)"
  using stream_parts_member by (auto simp: stream_content_def split: if_splits)

lemma stream_content_flag:
  "has_started_streaming_content (fst (stream_content i st ev)) =
     (has_started_streaming_content st \<or> snd (stream_content i st ev) \<noteq> [])"
  by (simp add: stream_content_def stream_parts_flag)

lemma stream_content_agent:
  "current_agent (fst (stream_content i st ev)) = current_agent st"
  by (simp add: stream_content_def stream_parts_agent)

lemma process_event_snd:
  "snd (process_event i st ev) =
     snd (agent_switch i st ev) @ tool_calls i (fst (agent_switch i st ev)) ev
       @ hand_off i ev @ snd (stream_content i (fst (agent_switch i st ev)) ev)"
  by (simp add: process_event_def case_prod_beta Let_def)

lemma process_event_fst:
  "fst (process_event i st ev) = fst (stream_content i (fst (agent_switch i st ev)) ev)"
  by (simp add: process_event_def case_prod_beta Let_def)

lemma run_events_Cons_snd:
  "snd (run_events i st (ev # evs)) =
     snd (process_event i st ev) @ snd (run_events (Suc i) (fst (process_event i st ev)) evs)"
  by (simp add: case_prod_beta Let_def)

lemma run_events_Cons_fst:
  "fst (run_events i st (ev # evs)) = fst (run_events (Suc i) (fst (process_event i st ev)) evs)"
  by (simp add: case_prod_beta Let_def)

lemma run_events_append_snd:
  "snd (run_events i st (evs1 @ evs2)) =
     snd (run_events i st evs1)
       @ snd (run_events (i + length evs1) (fst (run_events i st evs1)) evs2)"
  by (induction evs1 arbitrary: i st) (simp_all add: case_prod_beta Let_def)

lemma run_events_append_fst:
  "fst (run_events i st (evs1 @ evs2)) =
     fst (run_events (i + length evs1) (fst (run_events i st evs1)) evs2)"
  by (induction evs1 arbitrary: i st) (simp_all add: case_prod_beta Let_def)

lemma process_event_flag_mono:
  "has_started_streaming_content st \<Longrightarrow> has_started_streaming_content (fst (process_event i st ev))"
  by (simp add: process_event_fst stream_content_flag agent_switch_flag)

lemma run_events_flag_mono:
  "has_started_streaming_content st \<Longrightarrow> has_started_streaming_content (fst (run_events i st evs))"
  by (induction evs arbitrary: i st) (simp_all add: process_event_flag_mono case_prod_beta Let_def)

lemma stream_parts_flag_mono:
  "has_started_streaming_content st \<Longrightarrow> has_started_streaming_content (fst (stream_parts i st ps))"
  by (simp add: stream_parts_flag)

lemma state_after_mono:
  assumes "m \<le> n" and "has_started_streaming_content (state_after evs m)"
  shows "has_started_streaming_content (state_after evs n)"
proof -
  have "take n evs = take m evs @ drop m (take n evs)"
    using assms(1) by (metis append_take_drop_id min.absorb1 take_take)
  then have "state_after evs n =
      fst (run_events (0 + length (take m evs)) (state_after evs m) (drop m (take n evs)))"
    unfolding state_after_def by (metis run_events_append_fst)
  with assms(2) show ?thesis by (simp add: run_events_flag_mono)
qed

lemma stream_parts_chunks_flag:
  "has_started_streaming_content (fst (stream_parts i st ps)) =
     (has_started_streaming_content st \<or> text_chunks ps \<noteq> [])"
proof -
  have "(snd (stream_parts i st ps) = []) = (text_chunks ps = [])"
    using stream_parts_emitted [of i st ps] by (metis map_is_Nil_conv)
  then show ?thesis by (simp add: stream_parts_flag)
qed

lemma state_after_snoc:
  "k \<le> length evs \<Longrightarrow> state_after (evs @ [ev]) k = state_after evs k"
  by (simp add: state_after_def)

subsection \<open>Statuses after content\<close>

lemma process_event_started_unguarded:
  "has_started_streaming_content st \<Longrightarrow> e \<in> set (snd (process_event i st ev)) \<Longrightarrow> \<not> guarded e"
  using agent_switch_member tool_calls_member hand_off_member stream_content_member
  by (fastforce simp: process_event_snd guarded_def agent_switch_flag)

lemma run_events_started_unguarded:
  "has_started_streaming_content st \<Longrightarrow> e \<in> set (snd (run_events i st evs)) \<Longrightarrow> \<not> guarded e"
proof (induction evs arbitrary: i st)
  case Nil
  then show ?case by simp
next
  case (Cons ev evs)
  from Cons.prems(2) consider
      "e \<in> set (snd (process_event i st ev))"
    | "e \<in> set (snd (run_events (Suc i) (fst (process_event i st ev)) evs))"
    by (auto simp: case_prod_beta Let_def)
  then show ?case
  proof cases
    case 1
    with Cons.prems(1) show ?thesis by (rule process_event_started_unguarded)
  next
    case 2
    with Cons.IH process_event_flag_mono[OF Cons.prems(1)] show ?thesis by blast
  qed
qed

lemma process_event_content_sets_flag:
  "e \<in> set (snd (process_event i st ev)) \<Longrightarrow> is_Content (emitted e) \<Longrightarrow>
     has_started_streaming_content (fst (process_event i st ev))"
  using agent_switch_member tool_calls_member hand_off_member
  by (fastforce simp: process_event_snd process_event_fst stream_content_flag)

lemma split_in_append:
  assumes "a @ b = xs @ x # ys" and "y \<in> set ys"
  shows "(\<exists>xs' ys'. a = xs' @ x # ys' \<and> (y \<in> set ys' \<or> y \<in> set b))
         \<or> (\<exists>xs'. b = xs' @ x # ys)"
proof -
  from assms(1) obtain us where
    "(a = xs @ us \<and> us @ b = x # ys) \<or> (a @ us = xs \<and> b = us @ x # ys)"
    by (auto simp: append_eq_append_conv2)
  then show ?thesis
  proof
    assume h: "a = xs @ us \<and> us @ b = x # ys"
    show ?thesis
    proof (cases us)
      case Nil
      with h have "b = [] @ x # ys" by simp
      then show ?thesis by blast
    next
      case (Cons u us')
      with h have "u = x" and "ys = us' @ b" by simp_all
      with h Cons assms(2) show ?thesis by auto
    qed
  next
    assume "a @ us = xs \<and> b = us @ x # ys"
    then show ?thesis by blast
  qed
qed

lemma process_event_after_content:
  assumes "snd (process_event i st ev) = xs @ x # ys" and "is_Content (emitted x)"
    and "y \<in> set ys"
  shows "\<not> guarded y"
proof -
  let ?st1 = "fst (agent_switch i st ev)"
  let ?a = "snd (agent_switch i st ev) @ tool_calls i ?st1 ev @ hand_off i ev"
  let ?b = "snd (stream_content i ?st1 ev)"
  have "?a @ ?b = xs @ x # ys"
    using assms(1) by (simp add: process_event_snd)
  from split_in_append[OF this assms(3)] show ?thesis
  proof
    assume "\<exists>xs' ys'. ?a = xs' @ x # ys' \<and> (y \<in> set ys' \<or> y \<in> set ?b)"
    then obtain xs' ys' where eq: "?a = xs' @ x # ys'" by blast
    have "x \<in> set ?a" unfolding eq by simp
    then have "\<not> is_Content (emitted x)"
      using agent_switch_member tool_calls_member hand_off_member by fastforce
    with assms(2) show ?thesis by simp
  next
    assume "\<exists>xs'. ?b = xs' @ x # ys"
    with assms(3) have "y \<in> set ?b" by auto
    then show ?thesis
      using stream_content_member by (fastforce simp: guarded_def)
  qed
qed

lemma run_events_after_content:
  "snd (run_events i st evs) = xs @ x # ys \<Longrightarrow> is_Content (emitted x) \<Longrightarrow>
     y \<in> set ys \<Longrightarrow> \<not> guarded y"
proof (induction evs arbitrary: i st xs)
  case Nil
  then show ?case by simp
next
  case (Cons ev evs)
  let ?now = "snd (process_event i st ev)"
  let ?st' = "fst (process_event i st ev)"
  let ?later = "snd (run_events (Suc i) ?st' evs)"
  have "?now @ ?later = xs @ x # ys"
    using Cons.prems(1) by (simp add: case_prod_beta Let_def)
  from split_in_append[OF this Cons.prems(3)] show ?case
  proof
    assume "\<exists>xs' ys'. ?now = xs' @ x # ys' \<and> (y \<in> set ys' \<or> y \<in> set ?later)"
    then obtain xs' ys' where now: "?now = xs' @ x # ys'"
      and y: "y \<in> set ys' \<or> y \<in> set ?later" by blast
    from y show ?thesis
    proof
      assume "y \<in> set ys'"
      with now Cons.prems(2) show ?thesis by (rule process_event_after_content)
    next
      assume later: "y \<in> set ?later"
      from now have "x \<in> set ?now" by simp
      then have "has_started_streaming_content ?st'"
        using Cons.prems(2) by (rule process_event_content_sets_flag)
      then show ?thesis using later by (rule run_events_started_unguarded)
    qed
  next
    assume "\<exists>xs'. ?later = xs' @ x # ys"
    then obtain xs' where "?later = xs' @ x # ys" ..
    then show ?thesis using Cons.prems(2,3) by (rule Cons.IH)
  qed
qed

lemma call_llm_yielded:
  "\<exists>evs. yielded (call_llm rn msgs uid sid) = snd (run_events 0 initial_state evs)"
proof -
  let ?evs = "fst (run_async rn uid (resolve_session_id uid sid)
                     (new_message_of (the (last_message_of msgs ''content''))))"
  have "yielded (call_llm rn msgs uid sid) = snd (run_events 0 initial_state [])
        \<or> yielded (call_llm rn msgs uid sid) = snd (run_events 0 initial_state ?evs)"
    by (auto simp: call_llm_def Let_def case_prod_beta split: option.splits)
  then show ?thesis by blast
qed

subsection \<open>What each block contributes\<close>

lemma from_rule_append:
  "from_rule r (a @ b) = from_rule r a @ from_rule r b"
  by (simp add: from_rule_def)

lemma from_rule_uniform:
  "(\<And>e. e \<in> set es \<Longrightarrow> by_rule e = r') \<Longrightarrow>
     from_rule r es = (if r = r' then map emitted es else [])"
  by (induction es) (auto simp: from_rule_def)

lemma from_rule_agent_switch:
  "from_rule r (snd (agent_switch i st ev)) =
     (if r = AgentSwitch then map emitted (snd (agent_switch i st ev)) else [])"
  using agent_switch_member by (intro from_rule_uniform) blast

lemma from_rule_tool_calls:
  "from_rule r (tool_calls i st ev) = (if r = ToolCall then map emitted (tool_calls i st ev) else [])"
  using tool_calls_member by (intro from_rule_uniform) blast

lemma from_rule_hand_off:
  "from_rule r (hand_off i ev) = (if r = HandOff then map emitted (hand_off i ev) else [])"
  using hand_off_member by (intro from_rule_uniform) blast

lemma from_rule_stream_content:
  "from_rule r (snd (stream_content i st ev)) =
     (if r = ContentExtraction then map emitted (snd (stream_content i st ev)) else [])"
  using stream_content_member by (intro from_rule_uniform) blast

lemma tool_calls_after_switch:
  "tool_calls i (fst (agent_switch i st ev)) ev = tool_calls i st ev"
  by (simp add: tool_calls_def agent_switch_flag)

lemma from_rule_process_event:
  "from_rule r (snd (process_event i st ev)) =
     (case r of
        AgentSwitch \<Rightarrow> map emitted (snd (agent_switch i st ev))
      | ToolCall \<Rightarrow> map emitted (tool_calls i st ev)
      | HandOff \<Rightarrow> map emitted (hand_off i ev)
      | ContentExtraction \<Rightarrow> map emitted (snd (stream_content i (fst (agent_switch i st ev)) ev)))"
  by (cases r)
     (simp_all add: process_event_snd from_rule_append from_rule_agent_switch
        from_rule_tool_calls from_rule_hand_off from_rule_stream_content tool_calls_after_switch)

lemma filter_rule_uniform:
  "(\<And>e. e \<in> set es \<Longrightarrow> by_rule e = r') \<Longrightarrow>
     filter (\<lambda>e. by_rule e = r) es = (if r = r' then es else [])"
  by (induction es) auto

lemma filter_rule_process_event:
  "filter (\<lambda>e. by_rule e = r) (snd (process_event i st ev)) =
     (case r of
        AgentSwitch \<Rightarrow> snd (agent_switch i st ev)
      | ToolCall \<Rightarrow> tool_calls i st ev
      | HandOff \<Rightarrow> hand_off i ev
      | ContentExtraction \<Rightarrow> snd (stream_content i (fst (agent_switch i st ev)) ev))"
proof -
  have a: "\<And>r. filter (\<lambda>e. by_rule e = r) (snd (agent_switch i st ev)) =
      (if r = AgentSwitch then snd (agent_switch i st ev) else [])"
    using agent_switch_member by (intro filter_rule_uniform) blast
  have t: "\<And>r. filter (\<lambda>e. by_rule e = r) (tool_calls i st ev) =
      (if r = ToolCall then tool_calls i st ev else [])"
    using tool_calls_member by (intro filter_rule_uniform) blast
  have h: "\<And>r. filter (\<lambda>e. by_rule e = r) (hand_off i ev) =
      (if r = HandOff then hand_off i ev else [])"
    using hand_off_member by (intro filter_rule_uniform) blast
  have c: "\<And>r s. filter (\<lambda>e. by_rule e = r) (snd (stream_content i s ev)) =
      (if r = ContentExtraction then snd (stream_content i s ev) else [])"
    using stream_content_member by (intro filter_rule_uniform) blast
  show ?thesis
    by (cases r) (simp_all add: process_event_snd tool_calls_after_switch a t h c)
qed

lemma process_event_by_rule:
  "snd (process_event i st ev) =
     filter (\<lambda>e. by_rule e = AgentSwitch) (snd (process_event i st ev))
     @ filter (\<lambda>e. by_rule e = ToolCall) (snd (process_event i st ev))
     @ filter (\<lambda>e. by_rule e = HandOff) (snd (process_event i st ev))
     @ filter (\<lambda>e. by_rule e = ContentExtraction) (snd (process_event i st ev))"
proof -
  have blocks:
    "filter (\<lambda>e. by_rule e = AgentSwitch) (snd (process_event i st ev)) = snd (agent_switch i st ev)"
    "filter (\<lambda>e. by_rule e = ToolCall) (snd (process_event i st ev)) = tool_calls i st ev"
    "filter (\<lambda>e. by_rule e = HandOff) (snd (process_event i st ev)) = hand_off i ev"
    "filter (\<lambda>e. by_rule e = ContentExtraction) (snd (process_event i st ev))
       = snd (stream_content i (fst (agent_switch i st ev)) ev)"
    by (simp_all add: filter_rule_process_event)
  show ?thesis
    unfolding blocks by (simp add: process_event_snd tool_calls_after_switch)
qed

subsection \<open>Order of the emissions\<close>

lemma process_event_member_index:
  "e \<in> set (snd (process_event i st ev)) \<Longrightarrow> at_event e = i"
  using agent_switch_member tool_calls_member hand_off_member stream_content_member
  by (fastforce simp: process_event_snd)

lemma run_events_member_index:
  "e \<in> set (snd (run_events i st evs)) \<Longrightarrow> i \<le> at_event e \<and> at_event e < i + length evs"
proof (induction evs arbitrary: i st)
  case Nil
  then show ?case by simp
next
  case (Cons ev evs)
  from Cons.prems consider
      "e \<in> set (snd (process_event i st ev))"
    | "e \<in> set (snd (run_events (Suc i) (fst (process_event i st ev)) evs))"
    by (auto simp: case_prod_beta Let_def)
  then show ?case
  proof cases
    case 1
    then show ?thesis by (simp add: process_event_member_index)
  next
    case 2
    from Cons.IH[OF this] show ?thesis by simp
  qed
qed

lemma sorted_process_event:
  "sorted_wrt emission_order (snd (process_event i st ev))"
proof -
  have same: "\<And>es r. (\<And>e. e \<in> set es \<Longrightarrow> by_rule e = r \<and> at_event e = i) \<Longrightarrow>
      sorted_wrt emission_order es"
    by (simp add: sorted_wrt_iff_nth_less emission_order_def)
  have a: "sorted_wrt emission_order (snd (agent_switch i st ev))"
    using agent_switch_member by (intro same) blast
  have t: "sorted_wrt emission_order (tool_calls i (fst (agent_switch i st ev)) ev)"
    using tool_calls_member by (intro same) blast
  have h: "sorted_wrt emission_order (hand_off i ev)"
    using hand_off_member by (intro same) blast
  have c: "sorted_wrt emission_order (snd (stream_content i (fst (agent_switch i st ev)) ev))"
    using stream_content_member by (intro same) blast
  show ?thesis
    unfolding process_event_snd sorted_wrt_append
    using a t h c agent_switch_member tool_calls_member hand_off_member stream_content_member
    by (fastforce simp: emission_order_def)
qed

lemma sorted_run_events:
  "sorted_wrt emission_order (snd (run_events i st evs))"
proof (induction evs arbitrary: i st)
  case Nil
  then show ?case by simp
next
  case (Cons ev evs)
  have "emission_order a b"
    if "a \<in> set (snd (process_event i st ev))"
      and "b \<in> set (snd (run_events (Suc i) (fst (process_event i st ev)) evs))" for a b
    using process_event_member_index[OF that(1)] run_events_member_index[OF that(2)]
    by (simp add: emission_order_def)
  then show ?case
    by (simp add: run_events_Cons_snd sorted_wrt_append sorted_process_event Cons.IH
          del: run_events.simps)
qed

lemma run_events_concat:
  "snd (run_events 0 initial_state evs) =
     concat (map (\<lambda>k. snd (process_event k (state_after evs k) (evs ! k))) [0..<length evs])"
proof (induction evs rule: rev_induct)
  case Nil
  then show ?case by simp
next
  case (snoc ev evs)
  have last: "snd (run_events (length evs) (state_after evs (length evs)) [ev]) =
      snd (process_event (length evs) (state_after (evs @ [ev]) (length evs)) ((evs @ [ev]) ! length evs))"
    by (simp add: state_after_def case_prod_beta Let_def)
  have earlier: "map (\<lambda>k. snd (process_event k (state_after (evs @ [ev]) k) ((evs @ [ev]) ! k))) [0..<length evs]
      = map (\<lambda>k. snd (process_event k (state_after evs k) (evs ! k))) [0..<length evs]"
    by (rule map_cong) (simp_all add: state_after_snoc nth_append)
  have "snd (run_events 0 initial_state (evs @ [ev])) =
      snd (run_events 0 initial_state evs)
        @ snd (run_events (length evs) (state_after evs (length evs)) [ev])"
    using run_events_append_snd [of 0 initial_state evs "[ev]"] by (simp add: state_after_def)
  also have "\<dots> =
      concat (map (\<lambda>k. snd (process_event k (state_after evs k) (evs ! k))) [0..<length evs])
        @ snd (process_event (length evs) (state_after (evs @ [ev]) (length evs))
                 ((evs @ [ev]) ! length evs))"
    by (simp only: snoc.IH last)
  also have "\<dots> =
      concat (map (\<lambda>k. snd (process_event k (state_after (evs @ [ev]) k) ((evs @ [ev]) ! k)))
                [0..<length (evs @ [ev])])"
    by (simp add: earlier)
  finally show ?case .
qed

subsection \<open>Readable tool names\<close>

lemma sep_chars [simp]:
  "\<not> is_cased (CHR '' '')" "upper_char (CHR '' '') = CHR '' ''" "lower_char (CHR '' '') = CHR '' ''"
  by (simp_all add: is_cased_def upper_char_def lower_char_def ascii_lowercase_def ascii_uppercase_def)

lemma title_from_space:
  "title_from b (w @ CHR '' '' # rest) = title_from b w @ CHR '' '' # title_from False rest"
  by (induction w arbitrary: b) simp_all

lemma readable_name_underscore:
  "readable_name (w @ CHR ''_'' # rest) = readable_name w @ CHR '' '' # readable_name rest"
  by (simp add: readable_name_def title_def replace_char_def title_from_space)

lemma title_from_cased:
  "\<forall>x \<in> set cs. is_cased x \<Longrightarrow> title_from True cs = map lower_char cs"
  by (induction cs) simp_all

lemma underscore_uncased: "is_cased c \<Longrightarrow> c \<noteq> CHR ''_''"
  by (auto simp: is_cased_def ascii_lowercase_def ascii_uppercase_def)

lemma replace_char_cased:
  "\<forall>x \<in> set cs. is_cased x \<Longrightarrow> replace_char (CHR ''_'') (CHR '' '') cs = cs"
  by (induction cs) (auto simp: replace_char_def dest: underscore_uncased)

lemma readable_name_word:
  assumes "is_cased c" and "\<forall>x \<in> set cs. is_cased x"
  shows "readable_name (c # cs) = upper_char c # map lower_char cs"
proof -
  have "replace_char (CHR ''_'') (CHR '' '') (c # cs) = c # cs"
    using assms by (intro replace_char_cased) simp
  then show ?thesis
    using assms by (simp add: readable_name_def title_def title_from_cased)
qed

subsection \<open>Evaluation of concrete streams\<close>

lemmas eval_defs = Let_def outputs_def call_llm_def delivering_def bare_event_def text_content_def
  resolve_session_id_def last_message_of_def new_message_of_def app_name_def
  initial_state_def process_event_def agent_switch_def tool_calls_def hand_off_def
  stream_content_def parts_of_def function_calls_of_def state_after_def
  readable_name_def title_def replace_char_def upper_char_def lower_char_def is_cased_def
  ascii_lowercase_def ascii_uppercase_def

lemma W_yield: "yielded (call_llm (delivering stream_W) [] ''U1'' None) =
      [\<lparr>at_event = 0, by_rule = AgentSwitch, emitted = Status ''A is working...''\<rparr>]
      @ \<lparr>at_event = 0, by_rule = ContentExtraction, emitted = Content ''partial''\<rparr>
      # [\<lparr>at_event = 1, by_rule = HandOff, emitted = Status ''Consulting C...''\<rparr>,
         \<lparr>at_event = 1, by_rule = ContentExtraction, emitted = Content '' more''\<rparr>]"
  by (simp add: eval_defs stream_W_def)

lemma W_state: "has_started_streaming_content (state_after stream_W 1)"
  by (simp add: eval_defs stream_W_def)

section \<open>The claims\<close>

text \<open>
  C1. During one call of \<open>call_llm\<close> the flag \<open>has_started_streaming_content\<close>, once
  true, stays true: from one raw event to any later one, and across every block of the loop
  body. In what the call yields, nothing that follows a content chunk comes from the
  agent-switch block or from the tool-call block.
\<close>

theorem content_started_is_monotone:
  "(\<forall>m n. m \<le> n \<longrightarrow> has_started_streaming_content (state_after evs m)
             \<longrightarrow> has_started_streaming_content (state_after evs n))
   \<and> (\<forall>i (st::translator_state) ev ps. has_started_streaming_content st \<longrightarrow>
          has_started_streaming_content (fst (agent_switch i st ev))
          \<and> has_started_streaming_content (fst (stream_parts i st ps))
          \<and> has_started_streaming_content (fst (process_event i st ev)))
   \<and> (\<forall>xs x ys. yielded (call_llm rn msgs uid sid) = xs @ x # ys \<longrightarrow> is_Content (emitted x)
          \<longrightarrow> (\<forall>y \<in> set ys. by_rule y \<noteq> AgentSwitch \<and> by_rule y \<noteq> ToolCall))"
proof (intro conjI allI impI ballI)
  fix m n assume "m \<le> n" "has_started_streaming_content (state_after evs m)"
  then show "has_started_streaming_content (state_after evs n)" by (rule state_after_mono)
next
  fix i ev and st :: translator_state assume "has_started_streaming_content st"
  then show "has_started_streaming_content (fst (agent_switch i st ev))"
    by (simp add: agent_switch_flag)
next
  fix i ps and st :: translator_state assume "has_started_streaming_content st"
  then show "has_started_streaming_content (fst (stream_parts i st ps))"
    by (rule stream_parts_flag_mono)
next
  fix i ev and st :: translator_state assume "has_started_streaming_content st"
  then show "has_started_streaming_content (fst (process_event i st ev))"
    by (rule process_event_flag_mono)
next
  fix xs x ys y
  assume split: "yielded (call_llm rn msgs uid sid) = xs @ x # ys"
    and c: "is_Content (emitted x)" and y: "y \<in> set ys"
  obtain evs' where "yielded (call_llm rn msgs uid sid) = snd (run_events 0 initial_state evs')"
    using call_llm_yielded by blast
  with split have "snd (run_events 0 initial_state evs') = xs @ x # ys" by simp
  then have "\<not> guarded y" using c y by (rule run_events_after_content)
  then show "by_rule y \<noteq> AgentSwitch" and "by_rule y \<noteq> ToolCall"
    by (simp_all add: guarded_def)
qed

theorem content_started_is_monotone_witness:
  "(1::nat) \<le> 2
   \<and> has_started_streaming_content (state_after stream_W 1)
   \<and> has_started_streaming_content (state_after stream_W 2)
   \<and> yielded (call_llm (delivering stream_W) [] ''U1'' None) =
      [\<lparr>at_event = 0, by_rule = AgentSwitch, emitted = Status ''A is working...''\<rparr>]
      @ \<lparr>at_event = 0, by_rule = ContentExtraction, emitted = Content ''partial''\<rparr>
      # [\<lparr>at_event = 1, by_rule = HandOff, emitted = Status ''Consulting C...''\<rparr>,
         \<lparr>at_event = 1, by_rule = ContentExtraction, emitted = Content '' more''\<rparr>]
   \<and> is_Content (emitted \<lparr>at_event = 0, by_rule = ContentExtraction, emitted = Content ''partial''\<rparr>)
   \<and> by_rule \<lparr>at_event = 1, by_rule = HandOff, emitted = Status ''Consulting C...''\<rparr> \<noteq> AgentSwitch
   \<and> by_rule \<lparr>at_event = 1, by_rule = HandOff, emitted = Status ''Consulting C...''\<rparr> \<noteq> ToolCall
   \<and> by_rule \<lparr>at_event = 1, by_rule = ContentExtraction, emitted = Content '' more''\<rparr> \<noteq> AgentSwitch
   \<and> by_rule \<lparr>at_event = 1, by_rule = ContentExtraction, emitted = Content '' more''\<rparr> \<noteq> ToolCall"
proof -
  note inst = content_started_is_monotone [of stream_W "delivering stream_W" "[]" "''U1''" None]
  have le: "(1::nat) \<le> 2" by simp
  have s2: "has_started_streaming_content (state_after stream_W 2)"
    using inst le W_state by blast
  have c: "is_Content (emitted \<lparr>at_event = 0, by_rule = ContentExtraction, emitted = Content ''partial''\<rparr>)"
    by simp
  have q: "\<forall>y \<in> set [\<lparr>at_event = 1, by_rule = HandOff, emitted = Status ''Consulting C...''\<rparr>,
         \<lparr>at_event = 1, by_rule = ContentExtraction, emitted = Content '' more''\<rparr>].
         by_rule y \<noteq> AgentSwitch \<and> by_rule y \<noteq> ToolCall"
    using inst W_yield c by blast
  from le W_state s2 W_yield c q show ?thesis by simp
qed

text \<open>
  C2, as the code has it. An event whose actions name a non-empty transfer target \<open>T\<close>
  yields the status "Consulting T..." from the hand-off block, whatever the translator
  state is, also when content has started. For the stream of scenario B a fresh call yields
  the status "A is working..." first, since the first event changes the current agent
  before any content has been streamed, and then "partial", "Consulting B..." and " more".
\<close>

theorem hand_off_status_always_shown:
  "(\<forall>acts T. actions ev = Some acts \<longrightarrow> transfer_to_agent acts = Some T \<longrightarrow> T \<noteq> [] \<longrightarrow>
      from_rule HandOff (snd (process_event i st ev)) = [Status (''Consulting '' @ T @ ''...'')])
   \<and> outputs (call_llm (delivering scenario_B) [] uid sid) =
       [Status ''A is working...'', Content ''partial'',
        Status ''Consulting B...'', Content '' more'']"
proof (intro conjI allI impI)
  fix acts T
  assume "actions ev = Some acts" "transfer_to_agent acts = Some T" "T \<noteq> []"
  then show "from_rule HandOff (snd (process_event i st ev)) = [Status (''Consulting '' @ T @ ''...'')]"
    by (simp add: from_rule_process_event hand_off_def)
next
  show "outputs (call_llm (delivering scenario_B) [] uid sid) =
       [Status ''A is working...'', Content ''partial'',
        Status ''Consulting B...'', Content '' more'']"
    by (simp add: eval_defs scenario_B_def)
qed

theorem hand_off_status_always_shown_witness:
  "actions (bare_event\<lparr>actions := Some \<lparr>transfer_to_agent = Some ''B''\<rparr>\<rparr>)
     = Some \<lparr>transfer_to_agent = Some ''B''\<rparr>
   \<and> transfer_to_agent \<lparr>transfer_to_agent = Some ''B''\<rparr> = Some ''B''
   \<and> ''B'' \<noteq> []
   \<and> has_started_streaming_content (started_with (Some ''A''))
   \<and> from_rule HandOff (snd (process_event 1 (started_with (Some ''A''))
         (bare_event\<lparr>actions := Some \<lparr>transfer_to_agent = Some ''B''\<rparr>\<rparr>)))
       = [Status ''Consulting B...'']"
  using hand_off_status_always_shown
    [of "bare_event\<lparr>actions := Some \<lparr>transfer_to_agent = Some ''B''\<rparr>\<rparr>" 1 "started_with (Some ''A'')"]
  by (simp add: started_with_def)

text \<open>
  C2, as stated: the output for scenario B is not the three events
  Content "partial", Status "Consulting B...", Content " more".
\<close>

theorem scenario_B_counterexample:
  "outputs (call_llm (delivering scenario_B) [] ''U1'' None)
     \<noteq> [Content ''partial'', Status ''Consulting B...'', Content '' more'']"
  by (simp add: eval_defs scenario_B_def)

text \<open>
  C3. What the loop yields is the concatenation, in stream order, of what the loop body
  yields for each raw event in the state reached before it, and within one raw event the
  emissions are those of the four blocks in the order agent switch, tool calls, hand-off,
  content.
  Hence the emissions of a call are sorted by position first and block second, and each of
  them belongs to the loop body's result for the event at its position.
\<close>

theorem outputs_follow_rule_evaluation_order:
  "snd (run_events 0 initial_state evs) =
     concat (map (\<lambda>k. snd (process_event k (state_after evs k) (evs ! k))) [0..<length evs])
   \<and> snd (process_event i st ev) =
       filter (\<lambda>e. by_rule e = AgentSwitch) (snd (process_event i st ev))
       @ filter (\<lambda>e. by_rule e = ToolCall) (snd (process_event i st ev))
       @ filter (\<lambda>e. by_rule e = HandOff) (snd (process_event i st ev))
       @ filter (\<lambda>e. by_rule e = ContentExtraction) (snd (process_event i st ev))
   \<and> snd (process_event i st ev) =
       snd (agent_switch i st ev) @ tool_calls i st ev @ hand_off i ev
       @ snd (stream_content i (fst (agent_switch i st ev)) ev)
   \<and> (\<forall>e \<in> set (snd (process_event i st ev)). at_event e = i)
   \<and> sorted_wrt emission_order (yielded (call_llm rn msgs uid sid))
   \<and> (\<forall>e \<in> set (yielded (call_llm rn msgs uid sid)).
        \<forall>t evs' failure.
          last_message_of msgs ''content'' = Some t \<longrightarrow>
          run_async rn uid (resolve_session_id uid sid) (new_message_of t) = (evs', failure)
          \<longrightarrow> at_event e < length evs'
              \<and> e \<in> set (snd (process_event (at_event e) (state_after evs' (at_event e))
                                  (evs' ! at_event e))))"
proof (intro conjI ballI allI impI)
  show "snd (run_events 0 initial_state evs) =
     concat (map (\<lambda>k. snd (process_event k (state_after evs k) (evs ! k))) [0..<length evs])"
    by (rule run_events_concat)
  show "snd (process_event i st ev) =
       filter (\<lambda>e. by_rule e = AgentSwitch) (snd (process_event i st ev))
       @ filter (\<lambda>e. by_rule e = ToolCall) (snd (process_event i st ev))
       @ filter (\<lambda>e. by_rule e = HandOff) (snd (process_event i st ev))
       @ filter (\<lambda>e. by_rule e = ContentExtraction) (snd (process_event i st ev))"
    by (rule process_event_by_rule)
  show "snd (process_event i st ev) =
       snd (agent_switch i st ev) @ tool_calls i st ev @ hand_off i ev
       @ snd (stream_content i (fst (agent_switch i st ev)) ev)"
    by (simp add: process_event_snd tool_calls_after_switch)
  show "sorted_wrt emission_order (yielded (call_llm rn msgs uid sid))"
    using call_llm_yielded [of rn msgs uid sid] sorted_run_events by auto
next
  fix e assume "e \<in> set (snd (process_event i st ev))"
  then show "at_event e = i" by (rule process_event_member_index)
next
  fix e t evs' failure
  assume e: "e \<in> set (yielded (call_llm rn msgs uid sid))"
    and msg: "last_message_of msgs ''content'' = Some t"
    and run: "run_async rn uid (resolve_session_id uid sid) (new_message_of t) = (evs', failure)"
  have "yielded (call_llm rn msgs uid sid) = [] \<or>
      yielded (call_llm rn msgs uid sid) = snd (run_events 0 initial_state evs')"
    using msg run by (auto simp: call_llm_def Let_def split: option.splits)
  with e have mem: "e \<in> set (snd (run_events 0 initial_state evs'))" by auto
  then show "at_event e < length evs'"
    using run_events_member_index by fastforce
  from mem obtain k where k: "k < length evs'"
    and ek: "e \<in> set (snd (process_event k (state_after evs' k) (evs' ! k)))"
    by (auto simp: run_events_concat)
  from ek have "at_event e = k" by (rule process_event_member_index)
  with ek show "e \<in> set (snd (process_event (at_event e) (state_after evs' (at_event e))
                                  (evs' ! at_event e)))"
    by simp
qed

theorem outputs_follow_rule_evaluation_order_witness:
  "tool_status_A \<in> set (yielded (call_llm (delivering scenario_A) [] ''U1'' None))
   \<and> last_message_of [] ''content'' = Some ''''
   \<and> run_async (delivering scenario_A) ''U1'' (resolve_session_id ''U1'' None) (new_message_of '''')
       = (scenario_A, None)
   \<and> at_event tool_status_A < length scenario_A
   \<and> tool_status_A \<in> set (snd (process_event (at_event tool_status_A)
        (state_after scenario_A (at_event tool_status_A)) (scenario_A ! at_event tool_status_A)))
   \<and> tool_status_A \<in> set (snd (process_event 1 initial_state (scenario_A ! 1)))
   \<and> at_event tool_status_A = 1
   \<and> map emitted (yielded (call_llm (delivering scenario_A) [] ''U1'' None))
       = [Status ''MathAgent is working...'', Status ''Using Calculate...'', Content ''Result: 4'']"
proof -
  note inst = outputs_follow_rule_evaluation_order
    [of scenario_A 1 initial_state "scenario_A ! 1" "delivering scenario_A" "[]" "''U1''" None]
  have y: "yielded (call_llm (delivering scenario_A) [] ''U1'' None) =
      [\<lparr>at_event = 0, by_rule = AgentSwitch, emitted = Status ''MathAgent is working...''\<rparr>,
       tool_status_A,
       \<lparr>at_event = 2, by_rule = ContentExtraction, emitted = Content ''Result: 4''\<rparr>]"
    by (simp add: eval_defs scenario_A_def tool_status_A_def)
  then have m: "tool_status_A \<in> set (yielded (call_llm (delivering scenario_A) [] ''U1'' None))"
    by simp
  have l: "last_message_of [] ''content'' = Some ''''" by (simp add: last_message_of_def)
  have r: "run_async (delivering scenario_A) ''U1'' (resolve_session_id ''U1'' None) (new_message_of '''')
       = (scenario_A, None)"
    by (simp add: delivering_def)
  from inst m l r have a: "at_event tool_status_A < length scenario_A
     \<and> tool_status_A \<in> set (snd (process_event (at_event tool_status_A)
        (state_after scenario_A (at_event tool_status_A)) (scenario_A ! at_event tool_status_A)))"
    by blast
  have p: "tool_status_A \<in> set (snd (process_event 1 initial_state (scenario_A ! 1)))"
    by (simp add: eval_defs scenario_A_def tool_status_A_def)
  with inst have i: "at_event tool_status_A = 1" by blast
  from y have o: "map emitted (yielded (call_llm (delivering scenario_A) [] ''U1'' None))
       = [Status ''MathAgent is working...'', Status ''Using Calculate...'', Content ''Result: 4'']"
    by (simp add: tool_status_A_def)
  from m l r a p i o show ?thesis by simp
qed

text \<open>
  C4, as the code has it. The \<open>except Exception: pass\<close> around \<open>create_session\<close> absorbs
  every exception derived from \<open>Exception\<close>, "already exists" or not: the call makes the
  same calls on the runner, yields the same events and ends the same way as when the
  creation succeeds.
\<close>

theorem session_creation_exceptions_absorbed:
  "create_session rn app_name uid (resolve_session_id uid sid) = Some e \<Longrightarrow> is_Exception e \<Longrightarrow>
     call_llm rn msgs uid sid = call_llm (rn\<lparr>create_session := \<lambda>_ _ _. None\<rparr>) msgs uid sid"
  by (simp add: call_llm_def Let_def split: option.splits)

theorem session_creation_exceptions_absorbed_witness:
  "create_session (failing_runner AlreadyExistsError scenario_A) app_name ''U1''
       (resolve_session_id ''U1'' (Some ''1700000000.000100'')) = Some AlreadyExistsError
   \<and> is_Exception AlreadyExistsError
   \<and> call_llm (failing_runner AlreadyExistsError scenario_A) [] ''U1'' (Some ''1700000000.000100'')
       = call_llm (delivering scenario_A) [] ''U1'' (Some ''1700000000.000100'')
   \<and> create_session (failing_runner (OtherException ''ConnectionError'') scenario_A) app_name ''U1''
       (resolve_session_id ''U1'' None) = Some (OtherException ''ConnectionError'')
   \<and> is_Exception (OtherException ''ConnectionError'')
   \<and> call_llm (failing_runner (OtherException ''ConnectionError'') scenario_A) [] ''U1'' None
       = call_llm (delivering scenario_A) [] ''U1'' None"
  using session_creation_exceptions_absorbed
      [of "failing_runner AlreadyExistsError scenario_A" "''U1''" "Some ''1700000000.000100''"
          AlreadyExistsError "[]"]
    session_creation_exceptions_absorbed
      [of "failing_runner (OtherException ''ConnectionError'') scenario_A" "''U1''" None
          "OtherException ''ConnectionError''" "[]"]
  by (simp add: failing_runner_def delivering_def)

text \<open>
  C4, as stated: a creation failure other than "already exists" is not passed on to the
  caller. With a \<open>ConnectionError\<close> from \<open>create_session\<close> the call raises nothing and
  is indistinguishable from the call on a runner whose creation succeeds.
\<close>

theorem other_creation_failure_counterexample:
  "raised (call_llm (failing_runner (OtherException ''ConnectionError'') scenario_A) [] ''U1'' None) = None
   \<and> call_llm (failing_runner (OtherException ''ConnectionError'') scenario_A) [] ''U1'' None
       = call_llm (delivering scenario_A) [] ''U1'' None"
  by (simp add: call_llm_def failing_runner_def delivering_def last_message_of_def Let_def)

text \<open>
  C5. An event whose author is a non-empty string other than "user" and other than the
  current agent makes that author the current agent; the agent-switch block yields the
  status "<author> is working..." exactly when content has not started, and nothing
  otherwise.
\<close>

theorem agent_switch_updates_current_agent:
  "author ev = Some a \<Longrightarrow> a \<noteq> [] \<Longrightarrow> a \<noteq> ''user'' \<Longrightarrow> current_agent st \<noteq> Some a \<Longrightarrow>
     current_agent (fst (process_event i st ev)) = Some a
     \<and> from_rule AgentSwitch (snd (process_event i st ev)) =
         (if has_started_streaming_content st then [] else [Status (a @ '' is working...'')])"
  by (simp add: from_rule_process_event process_event_fst stream_content_agent agent_switch_def)

theorem agent_switch_updates_current_agent_witness:
  "author (bare_event\<lparr>author := Some ''B''\<rparr>) = Some ''B'' \<and> ''B'' \<noteq> [] \<and> ''B'' \<noteq> ''user''
   \<and> current_agent (started_with (Some ''A'')) \<noteq> Some ''B''
   \<and> current_agent (fst (process_event 2 (started_with (Some ''A'')) (bare_event\<lparr>author := Some ''B''\<rparr>)))
       = Some ''B''
   \<and> from_rule AgentSwitch (snd (process_event 2 (started_with (Some ''A'')) (bare_event\<lparr>author := Some ''B''\<rparr>)))
       = []
   \<and> current_agent initial_state \<noteq> Some ''B''
   \<and> current_agent (fst (process_event 0 initial_state (bare_event\<lparr>author := Some ''B''\<rparr>))) = Some ''B''
   \<and> from_rule AgentSwitch (snd (process_event 0 initial_state (bare_event\<lparr>author := Some ''B''\<rparr>)))
       = [Status ''B is working...'']"
  using agent_switch_updates_current_agent
      [of "bare_event\<lparr>author := Some ''B''\<rparr>" "''B''" "started_with (Some ''A'')" 2]
    agent_switch_updates_current_agent
      [of "bare_event\<lparr>author := Some ''B''\<rparr>" "''B''" initial_state 0]
  by (simp add: started_with_def initial_state_def bare_event_def)

text \<open>
  C6. For an event with function calls the tool-call block yields nothing once content has
  started, and otherwise one status "Using <readable name>..." per call, in call order. The
  readable name of "calculate" is "Calculate"; an underscore becomes a space that separates
  two independently titled halves; a word of letters gets its first letter in upper case
  and the others in lower case.
\<close>

theorem tool_call_statuses:
  "(\<forall>cs. get_function_calls ev = Some cs \<longrightarrow> cs \<noteq> [] \<longrightarrow>
      from_rule ToolCall (snd (process_event i st ev)) =
        (if has_started_streaming_content st then []
         else map (\<lambda>c. Status (''Using '' @ readable_name (tool_name_of c) @ ''...'')) cs))
   \<and> readable_name ''calculate'' = ''Calculate''
   \<and> (\<forall>w rest. readable_name (w @ CHR ''_'' # rest)
                  = readable_name w @ CHR '' '' # readable_name rest)
   \<and> (\<forall>c cs. is_cased c \<longrightarrow> (\<forall>x \<in> set cs. is_cased x) \<longrightarrow>
         readable_name (c # cs) = upper_char c # map lower_char cs)"
proof (intro conjI allI impI)
  fix cs assume "get_function_calls ev = Some cs" "cs \<noteq> []"
  then show "from_rule ToolCall (snd (process_event i st ev)) =
        (if has_started_streaming_content st then []
         else map (\<lambda>c. Status (''Using '' @ readable_name (tool_name_of c) @ ''...'')) cs)"
    by (simp add: from_rule_process_event tool_calls_def function_calls_of_def comp_def)
next
  show "readable_name ''calculate'' = ''Calculate''"
    by (simp add: eval_defs)
next
  fix w rest
  show "readable_name (w @ CHR ''_'' # rest) = readable_name w @ CHR '' '' # readable_name rest"
    by (rule readable_name_underscore)
next
  fix c cs assume "is_cased c" "\<forall>x \<in> set cs. is_cased x"
  then show "readable_name (c # cs) = upper_char c # map lower_char cs"
    by (rule readable_name_word)
qed

theorem tool_call_statuses_witness:
  "get_function_calls tool_event = Some [Named ''get_current_time'', Unnamed ''calculate'']
   \<and> [Named ''get_current_time'', Unnamed ''calculate''] \<noteq> []
   \<and> from_rule ToolCall (snd (process_event 1 initial_state tool_event))
       = [Status ''Using Get Current Time...'', Status ''Using Calculate...'']
   \<and> from_rule ToolCall (snd (process_event 1 (started_with None) tool_event)) = []
   \<and> is_cased (CHR ''t'') \<and> is_cased (CHR ''i'') \<and> is_cased (CHR ''M'') \<and> is_cased (CHR ''e'')
   \<and> readable_name ''tiMe'' = ''Time''"
proof -
  note inst0 = tool_call_statuses [of tool_event 1 initial_state]
  note inst1 = tool_call_statuses [of tool_event 1 "started_with None"]
  have calls: "get_function_calls tool_event = Some [Named ''get_current_time'', Unnamed ''calculate'']"
    by (simp add: tool_event_def bare_event_def)
  have names: "readable_name ''get_current_time'' = ''Get Current Time''"
    "readable_name ''calculate'' = ''Calculate''"
    by (simp_all add: eval_defs)
  have a: "from_rule ToolCall (snd (process_event 1 initial_state tool_event))
       = [Status ''Using Get Current Time...'', Status ''Using Calculate...'']"
    using inst0 calls names by (simp add: initial_state_def)
  have b: "from_rule ToolCall (snd (process_event 1 (started_with None) tool_event)) = []"
    using inst1 calls by (simp add: started_with_def)
  have cased: "is_cased (CHR ''t'')" "is_cased (CHR ''i'')" "is_cased (CHR ''M'')" "is_cased (CHR ''e'')"
    by (simp_all add: is_cased_def ascii_lowercase_def ascii_uppercase_def)
  then have "\<forall>x \<in> set ''iMe''. is_cased x" by simp
  with inst0 cased(1) have "readable_name ''tiMe'' = upper_char (CHR ''t'') # map lower_char ''iMe''"
    by blast
  then have c: "readable_name ''tiMe'' = ''Time''"
    by (simp add: upper_char_def lower_char_def ascii_lowercase_def ascii_uppercase_def)
  from calls a b cased c show ?thesis by simp
qed

text \<open>
  C7. For an event not written by "user" whose content has parts, the content block yields
  one content chunk per part with a non-empty text, in part order; the flag is true
  afterwards exactly if it was true before or a chunk was yielded, and the same holds after
  every prefix of the parts, so the flag is set with the first chunk. An event written by
  "user" with no function calls and no hand-off (no actions, or actions that name no
  transfer target) yields nothing and leaves the state as it is.
\<close>

theorem content_extraction:
  "(\<forall>c ps. author ev \<noteq> Some ''user'' \<longrightarrow> content ev = Some c \<longrightarrow> parts c = Some ps \<longrightarrow>
      from_rule ContentExtraction (snd (process_event i st ev)) = map Content (text_chunks ps)
      \<and> has_started_streaming_content (fst (process_event i st ev))
          = (has_started_streaming_content st \<or> text_chunks ps \<noteq> [])
      \<and> (\<forall>k. has_started_streaming_content (fst (stream_parts i st (take k ps)))
               = (has_started_streaming_content st \<or> text_chunks (take k ps) \<noteq> [])))
   \<and> (author ev = Some ''user'' \<longrightarrow> function_calls_of ev = [] \<longrightarrow> hand_off i ev = [] \<longrightarrow>
        process_event i st ev = (st, []))
   \<and> (hand_off i ev = []) =
       (\<forall>acts T. actions ev = Some acts \<longrightarrow> transfer_to_agent acts = Some T \<longrightarrow> T = [])"
proof (intro conjI allI impI)
  fix c ps
  assume h: "author ev \<noteq> Some ''user''" "content ev = Some c" "parts c = Some ps"
  then have p: "parts_of ev = ps" by (simp add: parts_of_def)
  show "from_rule ContentExtraction (snd (process_event i st ev)) = map Content (text_chunks ps)"
    using h(1) p
    by (cases "ps = []")
       (simp_all add: from_rule_process_event stream_content_def stream_parts_emitted text_chunks_def)
  show "has_started_streaming_content (fst (process_event i st ev))
          = (has_started_streaming_content st \<or> text_chunks ps \<noteq> [])"
    using h(1) p
    by (cases "ps = []")
       (simp_all add: process_event_fst stream_content_def stream_parts_chunks_flag
          agent_switch_flag text_chunks_def)
  fix k
  show "has_started_streaming_content (fst (stream_parts i st (take k ps)))
               = (has_started_streaming_content st \<or> text_chunks (take k ps) \<noteq> [])"
    by (rule stream_parts_chunks_flag)
next
  assume "author ev = Some ''user''" "function_calls_of ev = []" "hand_off i ev = []"
  then show "process_event i st ev = (st, [])"
    by (simp add: process_event_def agent_switch_def tool_calls_def stream_content_def)
next
  show "(hand_off i ev = []) =
       (\<forall>acts T. actions ev = Some acts \<longrightarrow> transfer_to_agent acts = Some T \<longrightarrow> T = [])"
    by (auto simp: hand_off_def split: option.splits)
qed

theorem content_extraction_witness:
  "author (parts_event (Some ''MathAgent'')) \<noteq> Some ''user''
   \<and> content (parts_event (Some ''MathAgent'')) = Some \<lparr>role = Some ''model'', parts = Some three_parts\<rparr>
   \<and> parts \<lparr>role = Some ''model'', parts = Some three_parts\<rparr> = Some three_parts
   \<and> from_rule ContentExtraction (snd (process_event 0 initial_state (parts_event (Some ''MathAgent''))))
       = [Content ''Result: '', Content ''4'']
   \<and> has_started_streaming_content (fst (process_event 0 initial_state (parts_event (Some ''MathAgent''))))
   \<and> \<not> has_started_streaming_content (fst (stream_parts 0 initial_state (take 1 three_parts)))
   \<and> has_started_streaming_content (fst (stream_parts 0 initial_state (take 2 three_parts)))
   \<and> author user_content_event = Some ''user''
   \<and> function_calls_of user_content_event = []
   \<and> actions user_content_event = Some \<lparr>transfer_to_agent = None\<rparr>
   \<and> parts_of user_content_event = three_parts
   \<and> hand_off 0 user_content_event = []
   \<and> process_event 0 initial_state user_content_event = (initial_state, [])"
proof -
  note agent = content_extraction [of "parts_event (Some ''MathAgent'')" 0 initial_state]
  note user = content_extraction [of user_content_event 0 initial_state]
  have chunks: "text_chunks three_parts = [''Result: '', ''4'']"
    "text_chunks (take 1 three_parts) = []" "text_chunks (take 2 three_parts) = [''Result: '']"
    by (simp_all add: text_chunks_def three_parts_def)
  have ev: "author (parts_event (Some ''MathAgent'')) \<noteq> Some ''user''"
    "content (parts_event (Some ''MathAgent'')) = Some \<lparr>role = Some ''model'', parts = Some three_parts\<rparr>"
    "parts \<lparr>role = Some ''model'', parts = Some three_parts\<rparr> = Some three_parts"
    by (simp_all add: parts_event_def bare_event_def)
  have uev: "author user_content_event = Some ''user''"
    "function_calls_of user_content_event = []"
    "actions user_content_event = Some \<lparr>transfer_to_agent = None\<rparr>"
    "parts_of user_content_event = three_parts"
    "hand_off 0 user_content_event = []"
    by (simp_all add: user_content_event_def parts_event_def bare_event_def
          function_calls_of_def parts_of_def hand_off_def)
  have init: "\<not> has_started_streaming_content initial_state" by (simp add: initial_state_def)
  from agent ev have
    "from_rule ContentExtraction (snd (process_event 0 initial_state (parts_event (Some ''MathAgent''))))
       = map Content (text_chunks three_parts)"
    "has_started_streaming_content (fst (process_event 0 initial_state (parts_event (Some ''MathAgent''))))
       = (has_started_streaming_content initial_state \<or> text_chunks three_parts \<noteq> [])"
    "\<And>k. has_started_streaming_content (fst (stream_parts 0 initial_state (take k three_parts)))
       = (has_started_streaming_content initial_state \<or> text_chunks (take k three_parts) \<noteq> [])"
    by blast+
  moreover from user uev(1,2,5) have
    "process_event 0 initial_state user_content_event = (initial_state, [])"
    by blast
  ultimately show ?thesis using chunks ev uev init by simp
qed





text \<open>
  C10. What the tool-call block yields does not depend on the author of the event: an
  event written by "user" with function calls yields one status per call while content has
  not started.
\<close>

theorem tool_call_rule_ignores_author:
  "(\<forall>a. from_rule ToolCall (snd (process_event i st (ev\<lparr>author := a\<rparr>)))
          = from_rule ToolCall (snd (process_event i st ev)))
   \<and> (\<forall>cs. get_function_calls ev = Some cs \<longrightarrow> cs \<noteq> [] \<longrightarrow> \<not> has_started_streaming_content st \<longrightarrow>
         from_rule ToolCall (snd (process_event i st (ev\<lparr>author := Some ''user''\<rparr>)))
           = map (\<lambda>c. Status (''Using '' @ readable_name (tool_name_of c) @ ''...'')) cs)"
  by (simp add: from_rule_process_event tool_calls_def function_calls_of_def comp_def)

theorem tool_call_rule_ignores_author_witness:
  "get_function_calls user_tool_event = Some [Named ''count_words'']
   \<and> [Named ''count_words''] \<noteq> []
   \<and> \<not> has_started_streaming_content initial_state
   \<and> author (user_tool_event\<lparr>author := Some ''user''\<rparr>) = Some ''user''
   \<and> from_rule ToolCall (snd (process_event 0 initial_state (user_tool_event\<lparr>author := Some ''user''\<rparr>)))
       = [Status ''Using Count Words...'']
   \<and> map emitted (snd (process_event 0 initial_state (user_tool_event\<lparr>author := Some ''user''\<rparr>)))
       = [Status ''Using Count Words...'']"
proof -
  note inst = tool_call_rule_ignores_author [of 0 initial_state user_tool_event]
  have calls: "get_function_calls user_tool_event = Some [Named ''count_words'']"
    by (simp add: user_tool_event_def bare_event_def)
  have init: "\<not> has_started_streaming_content initial_state" by (simp add: initial_state_def)
  have name: "readable_name ''count_words'' = ''Count Words''" by (simp add: eval_defs)
  from inst calls init have
    "from_rule ToolCall (snd (process_event 0 initial_state (user_tool_event\<lparr>author := Some ''user''\<rparr>)))
       = map (\<lambda>c. Status (''Using '' @ readable_name (tool_name_of c) @ ''...'')) [Named ''count_words'']"
    by blast
  then have a: "from_rule ToolCall (snd (process_event 0 initial_state (user_tool_event\<lparr>author := Some ''user''\<rparr>)))
       = [Status ''Using Count Words...'']"
    using name by simp
  have b: "map emitted (snd (process_event 0 initial_state (user_tool_event\<lparr>author := Some ''user''\<rparr>)))
       = [Status ''Using Count Words...'']"
    by (simp add: eval_defs user_tool_event_def)
  from calls init a b show ?thesis by simp
qed

end
